theory Spec2Isabelle
  imports Main "HOL-Library.AList"
begin

section \<open>Values of the host language\<close>

text \<open>
  The emitter is untyped at run time: \<open>addListener\<close> receives any value and inspects it
  with \<open>typeof\<close> and \<open>instanceof\<close>. Functions, regular expressions and object
  literals are reference values and carry an identity (a natural number) that strict
  equality compares. A regular expression is its identity, the text \<open>String\<close> gives for
  it, and its \<open>test\<close> method (taken as stateless: no \<open>g\<close> or \<open>y\<close> flag). An object
  literal is its identity and the values of its \<open>listener\<close> and \<open>once\<close> properties
  (\<open>Undefined\<close> for a property it does not have). Numbers are integers plus \<open>NaN\<close>,
  the one value that is not strictly equal to itself.
\<close>

datatype regexp = RegExp (re_id: nat) (re_string: string) (test: "string \<Rightarrow> bool")

datatype val =
    Undefined
  | Null
  | Bool bool
  | Num int
  | NaN
  | Str string
  | Fun nat
  | Pat regexp
  | Obj nat val val

text \<open>
  What can be thrown: \<open>InvalidListener\<close> is the
  \<open>TypeError("listener must be a function")\<close> that \<open>addListener\<close> constructs,
  \<open>TypeError\<close> the one the runtime raises (a property read on \<open>null\<close> or
  \<open>undefined\<close>, a call of something that is not a function), \<open>Thrown v\<close> whatever a
  callback throws.
\<close>

datatype exn =
    InvalidListener
  | TypeError
  | Thrown val

text \<open>The operator \<open>===\<close>.\<close>

fun strict_eq :: "val \<Rightarrow> val \<Rightarrow> bool" where
  "strict_eq Undefined Undefined = True"
| "strict_eq Null Null = True"
| "strict_eq (Bool a) (Bool b) = (a = b)"
| "strict_eq (Num a) (Num b) = (a = b)"
| "strict_eq (Str a) (Str b) = (a = b)"
| "strict_eq (Fun i) (Fun j) = (i = j)"
| "strict_eq (Pat r) (Pat q) = (re_id r = re_id q)"
| "strict_eq (Obj i _ _) (Obj j _ _) = (i = j)"
| "strict_eq _ _ = False"

text \<open>Reading \<open>x.listener\<close> and \<open>x.once\<close>: a TypeError on \<open>null\<close> and \<open>undefined\<close>.\<close>

fun prop_listener :: "val \<Rightarrow> exn + val" where
  "prop_listener Undefined = Inl TypeError"
| "prop_listener Null = Inl TypeError"
| "prop_listener (Obj _ l _) = Inr l"
| "prop_listener _ = Inr Undefined"

fun prop_once :: "val \<Rightarrow> exn + val" where
  "prop_once Undefined = Inl TypeError"
| "prop_once Null = Inl TypeError"
| "prop_once (Obj _ _ b) = Inr b"
| "prop_once _ = Inr Undefined"

text \<open>\<open>typeof x === "object"\<close>.\<close>

fun typeof_object :: "val \<Rightarrow> bool" where
  "typeof_object Null = True"
| "typeof_object (Pat _) = True"
| "typeof_object (Obj _ _ _) = True"
| "typeof_object _ = False"

section \<open>Property order of an object\<close>

text \<open>
  A \<open>for (key in obj)\<close> loop over own properties visits the keys that are array indices
  (canonical decimal numerals below \<open>2^32 - 1\<close>) in ascending numeric order, then the
  other keys in the order of their creation. An object is kept as an association list in
  creation order; \<open>for_in\<close> gives the order of the loop. Assigning to an existing key
  keeps its place (\<open>AList.update\<close>), \<open>delete\<close> removes the entry.
\<close>

definition digit_val :: "char \<Rightarrow> nat option" where
  "digit_val c =
     (let n = (of_char c :: nat) in if 48 \<le> n \<and> n \<le> 57 then Some (n - 48) else None)"

fun decimal :: "nat \<Rightarrow> string \<Rightarrow> nat option" where
  "decimal acc [] = Some acc"
| "decimal acc (c # cs) =
     (case digit_val c of None \<Rightarrow> None | Some d \<Rightarrow> decimal (10 * acc + d) cs)"

definition array_index :: "string \<Rightarrow> nat option" where
  "array_index s =
     (if s = [] then None
      else if hd s = CHR ''0'' \<and> tl s \<noteq> [] then None
      else (case decimal 0 s of
              None \<Rightarrow> None
            | Some n \<Rightarrow> if n < 4294967295 then Some n else None))"

definition for_in :: "(string \<times> 'a) list \<Rightarrow> (string \<times> 'a) list" where
  "for_in obj =
     sort_key (\<lambda>p. the (array_index (fst p))) (filter (\<lambda>p. array_index (fst p) \<noteq> None) obj)
     @ filter (\<lambda>p. array_index (fst p) = None) obj"

section \<open>The emitter and the store\<close>

text \<open>
  Listener arrays are shared: \<open>getListeners\<close> hands out the array stored in the table,
  and \<open>push\<close> and \<open>splice\<close> change it in place. The store \<open>heap\<close> maps the address of
  an array to its elements; \<open>fresh\<close> is the next unused identity, for arrays and for
  object literals alike. \<open>events\<close> is the field \<open>_events\<close> (\<open>None\<close> while it is
  undefined), \<open>onceReturnValue\<close> the own property \<open>_onceReturnValue\<close> (\<open>None\<close> when
  the instance has no such own property).
\<close>

record state =
  events :: "(string \<times> nat) list option"
  onceReturnValue :: "val option"
  heap :: "nat \<Rightarrow> val list"
  fresh :: nat

text \<open>An event is addressed by a string or by a regular expression.\<close>

datatype evt = Key string | Pattern regexp

fun evt_string :: "evt \<Rightarrow> string" where
  "evt_string (Key k) = k"
| "evt_string (Pattern r) = re_string r"

text \<open>
  An operation that can throw returns \<open>Inl\<close> with the exception and the world as it
  is when the exception leaves the operation, or \<open>Inr\<close> with its result.
  The body of a function value receives the arguments and the world (the emitter is its
  \<open>this\<close>), and returns a value and the new world, or throws.
\<close>

type_synonym 'a result = "(exn \<times> state) + 'a"
type_synonym callback = "val list \<Rightarrow> state \<Rightarrow> (val \<times> state) result"
type_synonym env = "nat \<Rightarrow> callback"

text \<open>
  The class declares the fields \<open>_onceReturnValue\<close> and \<open>_events\<close> without initialiser;
  the compiled class in \<open>dist/EventEmitter.js\<close> keeps both declarations, so construction
  defines both as own properties holding \<open>undefined\<close>.
\<close>

definition new_EventEmitter :: state where
  "new_EventEmitter =
     \<lparr>events = None, onceReturnValue = Some Undefined, heap = (\<lambda>_. []), fresh = 0\<rparr>"

section \<open>The functions of the source\<close>

fun index_loop :: "val list \<Rightarrow> val \<Rightarrow> nat \<Rightarrow> exn + int" where
  "index_loop listeners listener 0 = Inr (- 1)"
| "index_loop listeners listener (Suc i) =
     (case prop_listener (listeners ! i) of
        Inl e \<Rightarrow> Inl e
      | Inr v \<Rightarrow> if strict_eq v listener then Inr (int i)
                else index_loop listeners listener i)"

definition indexOfListener :: "val list \<Rightarrow> val \<Rightarrow> exn + int" where
  "indexOfListener listeners listener = index_loop listeners listener (length listeners)"

fun isValidListener :: "val \<Rightarrow> bool" where
  "isValidListener (Fun _) = True"
| "isValidListener (Pat _) = True"
| "isValidListener (Obj _ l _) = isValidListener l"
| "isValidListener _ = False"

definition getEvents :: "state \<Rightarrow> (string \<times> nat) list \<times> state" where
  "getEvents s =
     (case events s of
        Some t \<Rightarrow> (t, s)
      | None \<Rightarrow> ([], s\<lparr>events := Some []\<rparr>))"

definition getOnceReturnValue :: "state \<Rightarrow> val" where
  "getOnceReturnValue s =
     (case onceReturnValue s of Some v \<Rightarrow> v | None \<Rightarrow> Bool True)"

definition setOnceReturnValue :: "val \<Rightarrow> state \<Rightarrow> state" where
  "setOnceReturnValue v s = s\<lparr>onceReturnValue := Some v\<rparr>"

text \<open>
  The table is a plain object literal, so a read \<open>events[evt]\<close> of a name that is not
  an own property finds what \<open>Object.prototype\<close> provides under that name: a function
  for most of them, \<open>Object.prototype\<close> itself for \<open>__proto__\<close>. All of these are
  truthy, none is an array, and none has an enumerable property.
\<close>

definition inherited_names :: "string list" where
  "inherited_names =
     [''constructor'', ''__defineGetter__'', ''__defineSetter__'', ''hasOwnProperty'',
      ''__lookupGetter__'', ''__lookupSetter__'', ''isPrototypeOf'', ''propertyIsEnumerable'',
      ''toString'', ''valueOf'', ''__proto__'', ''toLocaleString'']"

text \<open>
  What \<open>getListeners\<close> returns: a listener array, the object built in the pattern
  branch, or a value inherited from \<open>Object.prototype\<close>.
\<close>

datatype response = RArray nat | RMap "(string \<times> nat) list" | RInherited

text \<open>
  In the pattern branch the source writes \<open>response[evt] = events[key]\<close>: the property
  assigned is the one named by the text of the pattern, at every matching key. In the
  other branch \<open>events[evt] || (events[evt] = [])\<close> creates the key only when the read
  is falsy: an own key yields its array, an inherited name yields the inherited value and
  nothing is created, any other name is created with an empty array.
\<close>

definition getListeners :: "evt \<Rightarrow> state \<Rightarrow> response \<times> state" where
  "getListeners e s =
     (let (t, s1) = getEvents s in
      case e of
        Pattern r \<Rightarrow>
          (RMap (fold (\<lambda>(key, a) resp.
                         if test r key then AList.update (re_string r) a resp else resp)
                      (for_in t) []),
           s1)
      | Key k \<Rightarrow>
          (case map_of t k of
             Some a \<Rightarrow> (RArray a, s1)
           | None \<Rightarrow>
               if k \<in> set inherited_names then (RInherited, s1)
               else (RArray (fresh s1),
                     s1\<lparr>events := Some (t @ [(k, fresh s1)]),
                         heap := (heap s1)(fresh s1 := []),
                         fresh := Suc (fresh s1)\<rparr>)))"

text \<open>
  \<open>getListenersAsObject\<close> wraps an array under the key \<open>evt\<close> and returns anything
  else as it is. The callers only run \<open>for (key in ...)\<close> with \<open>hasOwnProperty\<close> over
  the result, so an inherited value counts as the object without keys.
\<close>

definition getListenersAsObject :: "evt \<Rightarrow> state \<Rightarrow> (string \<times> nat) list \<times> state" where
  "getListenersAsObject e s =
     (case getListeners e s of
        (RArray a, s1) \<Rightarrow> ([(evt_string e, a)], s1)
      | (RMap m, s1) \<Rightarrow> (m, s1)
      | (RInherited, s1) \<Rightarrow> ([], s1))"

definition flattenListeners :: "val list \<Rightarrow> exn + val list" where
  "flattenListeners listeners =
     fold (\<lambda>l acc. case acc of Inl e \<Rightarrow> Inl e
                   | Inr fs \<Rightarrow> (case prop_listener l of Inl e \<Rightarrow> Inl e
                                | Inr f \<Rightarrow> Inr (fs @ [f])))
          listeners (Inr [])"

text \<open>
  \<open>addListener\<close>: the validity check comes first and throws before anything is read or
  written. The loop runs over the keys of the object \<open>getListenersAsObject\<close> returned;
  a bare listener is wrapped in a new object literal at each push.
\<close>

fun add_keys :: "val \<Rightarrow> (string \<times> nat) list \<Rightarrow> state \<Rightarrow> state result" where
  "add_keys listener [] s = Inr s"
| "add_keys listener ((key, a) # rest) s =
     (case indexOfListener (heap s a) listener of
        Inl e \<Rightarrow> Inl (e, s)
      | Inr i \<Rightarrow>
          if i = - 1 then
            (if typeof_object listener
             then add_keys listener rest (s\<lparr>heap := (heap s)(a := heap s a @ [listener])\<rparr>)
             else add_keys listener rest
                    (s\<lparr>heap := (heap s)(a := heap s a @ [Obj (fresh s) listener (Bool False)]),
                       fresh := Suc (fresh s)\<rparr>))
          else add_keys listener rest s)"

definition addListener :: "evt \<Rightarrow> val \<Rightarrow> state \<Rightarrow> state result" where
  "addListener e listener s =
     (if \<not> isValidListener listener then Inl (InvalidListener, s)
      else (let (listeners, s1) = getListenersAsObject e s
            in add_keys listener (for_in listeners) s1))"

definition addOnceListener :: "evt \<Rightarrow> val \<Rightarrow> state \<Rightarrow> state result" where
  "addOnceListener e listener s =
     addListener e (Obj (fresh s) listener (Bool True)) (s\<lparr>fresh := Suc (fresh s)\<rparr>)"

definition defineEvent :: "evt \<Rightarrow> state \<Rightarrow> state" where
  "defineEvent e s = snd (getListeners e s)"

definition defineEvents :: "evt list \<Rightarrow> state \<Rightarrow> state" where
  "defineEvents evts s = fold defineEvent evts s"

text \<open>\<open>splice(index, 1)\<close>.\<close>

definition splice1 :: "nat \<Rightarrow> 'a list \<Rightarrow> 'a list" where
  "splice1 i xs = take i xs @ drop (Suc i) xs"

fun remove_keys :: "val \<Rightarrow> (string \<times> nat) list \<Rightarrow> state \<Rightarrow> state result" where
  "remove_keys listener [] s = Inr s"
| "remove_keys listener ((key, a) # rest) s =
     (case indexOfListener (heap s a) listener of
        Inl e \<Rightarrow> Inl (e, s)
      | Inr i \<Rightarrow>
          if i \<noteq> - 1
          then remove_keys listener rest (s\<lparr>heap := (heap s)(a := splice1 (nat i) (heap s a))\<rparr>)
          else remove_keys listener rest s)"

definition removeListener :: "evt \<Rightarrow> val \<Rightarrow> state \<Rightarrow> state result" where
  "removeListener e listener s =
     (let (listeners, s1) = getListenersAsObject e s
      in remove_keys listener (for_in listeners) s1)"

text \<open>
  \<open>manipulateListeners\<close>. Its second argument is an event (string or pattern) or a plain
  object; a property of that object is skipped when falsy, passed to the singular
  operation when it is a function, and passed with its key to the plural operation
  otherwise (modelled for an array of listeners).
\<close>

datatype map_value = Falsy | Single val | Several "val list"

datatype events_arg = Event evt | EventMap "(string \<times> map_value) list"

definition single :: "bool \<Rightarrow> evt \<Rightarrow> val \<Rightarrow> state \<Rightarrow> state result" where
  "single remove = (if remove then removeListener else addListener)"

text \<open>The loop \<open>i = listeners.length; while (i--) single(evt, listeners[i])\<close>.\<close>

fun manipulate_loop :: "bool \<Rightarrow> evt \<Rightarrow> val list \<Rightarrow> nat \<Rightarrow> state \<Rightarrow> state result" where
  "manipulate_loop remove e listeners 0 s = Inr s"
| "manipulate_loop remove e listeners (Suc i) s =
     (case single remove e (listeners ! i) s of
        Inl x \<Rightarrow> Inl x
      | Inr s1 \<Rightarrow> manipulate_loop remove e listeners i s1)"

fun manipulate_map :: "bool \<Rightarrow> (string \<times> map_value) list \<Rightarrow> state \<Rightarrow> state result" where
  "manipulate_map remove [] s = Inr s"
| "manipulate_map remove ((i, v) # rest) s =
     (case (case v of
              Falsy \<Rightarrow> Inr s
            | Single f \<Rightarrow> single remove (Key i) f s
            | Several ls \<Rightarrow> manipulate_loop remove (Key i) ls (length ls) s) of
        Inl x \<Rightarrow> Inl x
      | Inr s1 \<Rightarrow> manipulate_map remove rest s1)"

definition manipulateListeners :: "bool \<Rightarrow> events_arg \<Rightarrow> val list \<Rightarrow> state \<Rightarrow> state result" where
  "manipulateListeners remove ev listeners s =
     (case ev of
        EventMap m \<Rightarrow> manipulate_map remove (for_in m) s
      | Event e \<Rightarrow> manipulate_loop remove e listeners (length listeners) s)"

definition addListeners :: "events_arg \<Rightarrow> val list \<Rightarrow> state \<Rightarrow> state result" where
  "addListeners = manipulateListeners False"

definition removeListeners :: "events_arg \<Rightarrow> val list \<Rightarrow> state \<Rightarrow> state result" where
  "removeListeners = manipulateListeners True"

definition removeEvent :: "evt option \<Rightarrow> state \<Rightarrow> state" where
  "removeEvent eo s =
     (let (t, s1) = getEvents s in
      case eo of
        Some (Key k) \<Rightarrow> s1\<lparr>events := Some (filter (\<lambda>p. fst p \<noteq> k) t)\<rparr>
      | Some (Pattern r) \<Rightarrow> s1\<lparr>events := Some (filter (\<lambda>p. \<not> test r (fst p)) t)\<rparr>
      | None \<Rightarrow> s1\<lparr>events := None\<rparr>)"

text \<open>
  Dispatch. \<open>call\<close> is \<open>f.apply(this, args)\<close>: a TypeError unless \<open>f\<close> is a function.
  Besides the new world, the model of \<open>emitEvent\<close> returns the list of the functions
  this pass itself invoked, in order (the source returns \<open>this\<close>); what a callback
  invokes by emitting again is part of that callback's own effect. A fault ends the
  pass.
\<close>

definition call :: "env \<Rightarrow> val \<Rightarrow> val list \<Rightarrow> state \<Rightarrow> (val \<times> state) result" where
  "call env f args s = (case f of Fun i \<Rightarrow> env i args s | _ \<Rightarrow> Inl (TypeError, s))"

text \<open>The body of the inner loop, for one record of the snapshot.\<close>

definition emit_one :: "env \<Rightarrow> evt \<Rightarrow> val list \<Rightarrow> val \<Rightarrow> state \<Rightarrow> (state \<times> val) result" where
  "emit_one env e args listener s =
     (case prop_once listener of
        Inl x \<Rightarrow> Inl (x, s)
      | Inr once \<Rightarrow>
     (case prop_listener listener of
        Inl x \<Rightarrow> Inl (x, s)
      | Inr f \<Rightarrow>
     (case (if strict_eq once (Bool True) then removeListener e f s else Inr s) of
        Inl x \<Rightarrow> Inl x
      | Inr s1 \<Rightarrow>
     (case call env f args s1 of
        Inl x \<Rightarrow> Inl x
      | Inr (response, s2) \<Rightarrow>
     (case (if strict_eq response (getOnceReturnValue s2) then removeListener e f s2
            else Inr s2) of
        Inl x \<Rightarrow> Inl x
      | Inr s3 \<Rightarrow> Inr (s3, f))))))"

fun emit_listeners :: "env \<Rightarrow> evt \<Rightarrow> val list \<Rightarrow> val list \<Rightarrow> state \<Rightarrow> (state \<times> val list) result" where
  "emit_listeners env e args [] s = Inr (s, [])"
| "emit_listeners env e args (listener # rest) s =
     (case emit_one env e args listener s of
        Inl x \<Rightarrow> Inl x
      | Inr (s3, f) \<Rightarrow>
          (case emit_listeners env e args rest s3 of
             Inl x \<Rightarrow> Inl x
           | Inr (s4, invoked) \<Rightarrow> Inr (s4, f # invoked)))"

fun emit_keys :: "env \<Rightarrow> evt \<Rightarrow> val list \<Rightarrow> (string \<times> nat) list \<Rightarrow> state \<Rightarrow> (state \<times> val list) result" where
  "emit_keys env e args [] s = Inr (s, [])"
| "emit_keys env e args ((key, a) # rest) s =
     (case emit_listeners env e args (heap s a) s of
        Inl x \<Rightarrow> Inl x
      | Inr (s1, invoked) \<Rightarrow>
          (case emit_keys env e args rest s1 of
             Inl x \<Rightarrow> Inl x
           | Inr (s2, invoked') \<Rightarrow> Inr (s2, invoked @ invoked')))"

definition emitEvent :: "env \<Rightarrow> evt \<Rightarrow> val list option \<Rightarrow> state \<Rightarrow> (state \<times> val list) result" where
  "emitEvent env e args s =
     (let (listenersMap, s1) = getListenersAsObject e s
      in emit_keys env e (case args of Some a \<Rightarrow> a | None \<Rightarrow> []) (for_in listenersMap) s1)"

definition emit :: "env \<Rightarrow> evt \<Rightarrow> val list \<Rightarrow> state \<Rightarrow> (state \<times> val list) result" where
  "emit env e args s = emitEvent env e (Some args) s"

text \<open>The listeners of a key, read without creating it.\<close>

definition listeners_of :: "state \<Rightarrow> string \<Rightarrow> val list" where
  "listeners_of s k =
     (case events s of
        None \<Rightarrow> []
      | Some t \<Rightarrow> (case map_of t k of None \<Rightarrow> [] | Some a \<Rightarrow> heap s a))"

section \<open>Notions used to state the properties\<close>

text \<open>
  \<open>is_nullish\<close>: the values on which a property read throws. \<open>listener_field\<close>: what
  \<open>x.listener\<close> yields on the other values. \<open>removed v ls\<close>: the list \<open>ls\<close> after
  \<open>removeListener\<close> looked for \<open>v\<close> in it and spliced.
\<close>

fun is_nullish :: "val \<Rightarrow> bool" where
  "is_nullish Undefined = True" | "is_nullish Null = True" | "is_nullish _ = False"

fun listener_field :: "val \<Rightarrow> val" where
  "listener_field (Obj _ l _) = l" | "listener_field _ = Undefined"

definition removed :: "val \<Rightarrow> val list \<Rightarrow> val list" where
  "removed v ls =
     (case indexOfListener ls v of
        Inr i \<Rightarrow> if i \<noteq> - 1 then splice1 (nat i) ls else ls
      | Inl _ \<Rightarrow> ls)"

text \<open>Applying an operation to each entry of a list in turn, up to the first fault.\<close>

fun apply_each :: "(val \<Rightarrow> state \<Rightarrow> state result) \<Rightarrow> val list \<Rightarrow> state \<Rightarrow> state result" where
  "apply_each op [] s = Inr s"
| "apply_each op (x # xs) s =
     (case op x s of Inl f \<Rightarrow> Inl f | Inr s1 \<Rightarrow> apply_each op xs s1)"

text \<open>
  The values the specification accepts as listeners: directly invocable, a pattern, or a
  record whose listener field is acceptable.
\<close>

inductive acceptable :: "val \<Rightarrow> bool" where
  invocable: "acceptable (Fun i)"
| pattern: "acceptable (Pat r)"
| wrapping: "acceptable l \<Longrightarrow> acceptable (Obj i l b)"

text \<open>A world of callbacks that return \<open>undefined\<close> and do nothing else.\<close>

definition silent :: env where
  "silent i a st = Inr (Undefined, st)"

text \<open>The event table, empty while \<open>_events\<close> is undefined.\<close>

definition table :: "state \<Rightarrow> (string \<times> nat) list" where
  "table s = (case events s of None \<Rightarrow> [] | Some t \<Rightarrow> t)"

text \<open>
  A pattern that matches the keys \<open>foo\<close> and \<open>bar\<close>, and the emitter after
  \<open>addListener("foo", f1)\<close> and \<open>addListener("bar", f2)\<close> on a new instance.
\<close>

definition re_foo_bar :: regexp where
  "re_foo_bar = RegExp 100 ''/^(foo|bar)$/'' (\<lambda>key. key = ''foo'' \<or> key = ''bar'')"

definition two_events :: state where
  "two_events =
     \<lparr>events = Some [(''foo'', 0), (''bar'', 2)],
      onceReturnValue = Some Undefined,
      heap = (\<lambda>_. [])(0 := [Obj 1 (Fun 1) (Bool False)], 2 := [Obj 3 (Fun 2) (Bool False)]),
      fresh = 4\<rparr>"

text \<open>Callbacks that return \<open>0\<close> and do nothing else.\<close>

definition returns_zero :: env where
  "returns_zero i a st = Inr (Num 0, st)"

text \<open>
  A record \<open>{listener: f1, once: false}\<close> built by the caller; it has the identity
  \<open>0\<close>, so the emitter it is passed to starts with \<open>fresh = 1\<close>.
\<close>

definition wrapped_once :: val where
  "wrapped_once = Obj 0 (Fun 1) (Bool False)"

text \<open>
  \<open>ids_below n ls\<close>: no entry of \<open>ls\<close> is \<open>null\<close> or \<open>undefined\<close>, and an entry
  whose listener field is an object literal refers to one created before the identity
  \<open>n\<close>.
\<close>

fun object_id :: "val \<Rightarrow> nat option" where
  "object_id (Obj i _ _) = Some i"
| "object_id _ = None"

definition ids_below :: "nat \<Rightarrow> val list \<Rightarrow> bool" where
  "ids_below n ls = list_all (\<lambda>l. \<not> is_nullish l \<and>
       (case object_id (listener_field l) of None \<Rightarrow> True | Some i \<Rightarrow> i < n)) ls"

text \<open>
  Notions for dispatch on an exact key. \<open>callable_record\<close>: a record whose listener
  field is a function. \<open>key_at k a st\<close>: the table binds the key to the array at
  address \<open>a\<close>. \<open>after_call\<close>: the part of the loop body that follows the call.
\<close>

fun callable_record :: "val \<Rightarrow> bool" where
  "callable_record (Obj _ (Fun _) _) = True"
| "callable_record _ = False"

definition key_at :: "string \<Rightarrow> nat \<Rightarrow> state \<Rightarrow> bool" where
  "key_at k a st = (\<exists>t. events st = Some t \<and> map_of t k = Some a)"

definition after_call :: "evt \<Rightarrow> val \<Rightarrow> (val \<times> state) result \<Rightarrow> (state \<times> val) result" where
  "after_call e f res =
     (case res of
        Inl x \<Rightarrow> Inl x
      | Inr (response, s2) \<Rightarrow>
          (case (if strict_eq response (getOnceReturnValue s2) then removeListener e f s2
                 else Inr s2) of
             Inl x \<Rightarrow> Inl x
           | Inr s3 \<Rightarrow> Inr (s3, f)))"

text \<open>
  \<open>once_only\<close>: a new emitter after \<open>defineEvent("foo")\<close> and
  \<open>addOnceListener("foo", f7)\<close>. \<open>once_and_copy\<close>: the same after
  \<open>addListener("foo", {listener: f7, once: false})\<close>. \<open>once_left_behind\<close>: what a
  dispatch of \<open>foo\<close> makes of it.
\<close>

definition once_only :: state where
  "once_only =
     \<lparr>events = Some [(''foo'', 0)], onceReturnValue = Some Undefined,
      heap = (\<lambda>_. [])(0 := [Obj 1 (Fun 7) (Bool True)]), fresh = 2\<rparr>"

definition once_and_copy :: state where
  "once_and_copy =
     \<lparr>events = Some [(''foo'', 0)], onceReturnValue = Some Undefined,
      heap = (\<lambda>_. [])(0 := [Obj 1 (Fun 7) (Bool True), Obj 2 (Fun 7) (Bool False)]), fresh = 3\<rparr>"

definition once_left_behind :: state where
  "once_left_behind =
     \<lparr>events = Some [(''foo'', 0)], onceReturnValue = Some Undefined,
      heap = (\<lambda>_. [])(0 := [Obj 1 (Fun 7) (Bool True)]), fresh = 3\<rparr>"

text \<open>
  Notions for a listener that registers another one. \<open>adds_listener k g cb\<close>: the
  callback \<open>cb\<close> calls \<open>addListener(k, g)\<close> on the emitter and returns some value.
  \<open>quiet_except f env\<close>: every function but \<open>f\<close> returns some value and leaves the
  world as it found it. \<open>registered g ls\<close>: some entry of \<open>ls\<close> has the function
  \<open>g\<close> as its listener. \<open>live k a st\<close>: the key is bound to the array at \<open>a\<close>,
  which holds callable records.
\<close>

definition adds_listener :: "string \<Rightarrow> nat \<Rightarrow> callback \<Rightarrow> bool" where
  "adds_listener k g cb =
     (\<forall>args st. \<exists>r. cb args st =
        (case addListener (Key k) (Fun g) st of Inl x \<Rightarrow> Inl x | Inr st' \<Rightarrow> Inr (r, st')))"

definition quiet_except :: "nat \<Rightarrow> env \<Rightarrow> bool" where
  "quiet_except f env = (\<forall>c. c \<noteq> f \<longrightarrow> (\<forall>a st. \<exists>r. env c a st = Inr (r, st)))"

definition registered :: "nat \<Rightarrow> val list \<Rightarrow> bool" where
  "registered g ls = (Fun g \<in> listener_field ` set ls)"

definition live :: "string \<Rightarrow> nat \<Rightarrow> state \<Rightarrow> bool" where
  "live k a st = (key_at k a st \<and> list_all callable_record (heap st a))"

text \<open>Callbacks of which \<open>f1\<close> calls \<open>addListener("foo", f5)\<close>; all return \<open>0\<close>.\<close>

definition adder :: env where
  "adder i args st =
     (if i = 1
      then (case addListener (Key ''foo'') (Fun 5) st of
              Inl x \<Rightarrow> Inl x
            | Inr st' \<Rightarrow> Inr (Num 0, st'))
      else Inr (Num 0, st))"

section \<open>Basic facts\<close>

lemma ordinary_names [simp]:
  "''foo'' \<notin> set inherited_names" "''bar'' \<notin> set inherited_names"
  "''baz'' \<notin> set inherited_names"
  by (simp_all add: inherited_names_def)

lemma toString_inherited [simp]: "''toString'' \<in> set inherited_names"
  by (simp add: inherited_names_def)

lemma for_in_Nil: "for_in [] = []"
  by (simp add: for_in_def)

lemma for_in_single: "for_in [p] = [p]"
  by (simp add: for_in_def)

lemma getListenersAsObject_Key_present:
  "events s = Some t \<Longrightarrow> map_of t k = Some a \<Longrightarrow> getListenersAsObject (Key k) s = ([(k, a)], s)"
  by (simp add: getListenersAsObject_def getListeners_def getEvents_def)

lemma prop_listener_ok: "\<not> is_nullish l \<Longrightarrow> prop_listener l = Inr (listener_field l)"
  by (cases l) auto

lemma index_loop_none:
  "n \<le> length ls \<Longrightarrow> \<forall>j<n. \<not> is_nullish (ls ! j) \<and> \<not> strict_eq (listener_field (ls ! j)) v \<Longrightarrow>
   index_loop ls v n = Inr (- 1)"
  by (induction n) (auto simp: prop_listener_ok)

lemma index_loop_found:
  "j < n \<Longrightarrow> n \<le> length ls \<Longrightarrow> \<not> is_nullish (ls ! j) \<Longrightarrow> strict_eq (listener_field (ls ! j)) v \<Longrightarrow>
   \<forall>i. j < i \<and> i < n \<longrightarrow> \<not> is_nullish (ls ! i) \<and> \<not> strict_eq (listener_field (ls ! i)) v \<Longrightarrow>
   index_loop ls v n = Inr (int j)"
proof (induction n)
  case 0 then show ?case by simp
next
  case (Suc n)
  show ?case
  proof (cases "j = n")
    case True
    with Suc.prems show ?thesis by (simp add: prop_listener_ok)
  next
    case False
    with Suc.prems have "j < n" by simp
    moreover have "\<not> is_nullish (ls ! n) \<and> \<not> strict_eq (listener_field (ls ! n)) v"
      using Suc.prems \<open>j < n\<close> by simp
    ultimately show ?thesis using Suc by (simp add: prop_listener_ok)
  qed
qed


lemma index_loop_total:
  "n \<le> length ls \<Longrightarrow> \<forall>j<n. \<not> is_nullish (ls ! j) \<Longrightarrow>
   \<exists>i. index_loop ls v n = Inr i \<and>
     ((i = - 1 \<and> (\<forall>j<n. \<not> strict_eq (listener_field (ls ! j)) v)) \<or>
      (0 \<le> i \<and> nat i < n \<and> strict_eq (listener_field (ls ! nat i)) v \<and>
        (\<forall>j. nat i < j \<and> j < n \<longrightarrow> \<not> strict_eq (listener_field (ls ! j)) v)))"
proof (induction n)
  case 0 then show ?case by simp
next
  case (Suc n)
  have nn: "\<not> is_nullish (ls ! n)" using Suc.prems by simp
  show ?case
  proof (cases "strict_eq (listener_field (ls ! n)) v")
    case True
    then have "index_loop ls v (Suc n) = Inr (int n)" using nn by (simp add: prop_listener_ok)
    with True show ?thesis by auto
  next
    case False
    then have eq: "index_loop ls v (Suc n) = index_loop ls v n" using nn by (simp add: prop_listener_ok)
    from Suc obtain i where i: "index_loop ls v n = Inr i"
      and d: "(i = - 1 \<and> (\<forall>j<n. \<not> strict_eq (listener_field (ls ! j)) v)) \<or>
      (0 \<le> i \<and> nat i < n \<and> strict_eq (listener_field (ls ! nat i)) v \<and>
        (\<forall>j. nat i < j \<and> j < n \<longrightarrow> \<not> strict_eq (listener_field (ls ! j)) v))"
      by auto
    from d show ?thesis
    proof
      assume "i = - 1 \<and> (\<forall>j<n. \<not> strict_eq (listener_field (ls ! j)) v)"
      then show ?thesis using eq i False by (auto simp: less_Suc_eq)
    next
      assume "0 \<le> i \<and> nat i < n \<and> strict_eq (listener_field (ls ! nat i)) v \<and>
        (\<forall>j. nat i < j \<and> j < n \<longrightarrow> \<not> strict_eq (listener_field (ls ! j)) v)"
      then show ?thesis using eq i False by (auto simp: less_Suc_eq)
    qed
  qed
qed

lemma indexOfListener_total:
  assumes "\<forall>l\<in>set ls. \<not> is_nullish l"
  shows "\<exists>i. indexOfListener ls v = Inr i \<and>
     ((i = - 1 \<and> (\<forall>l\<in>set ls. \<not> strict_eq (listener_field l) v)) \<or>
      (0 \<le> i \<and> nat i < length ls \<and> strict_eq (listener_field (ls ! nat i)) v \<and>
        (\<forall>j. nat i < j \<and> j < length ls \<longrightarrow> \<not> strict_eq (listener_field (ls ! j)) v)))"
proof -
  have "\<forall>j<length ls. \<not> is_nullish (ls ! j)" using assms by simp
  from index_loop_total [OF le_refl this, of v]
  show ?thesis unfolding indexOfListener_def by (auto simp: in_set_conv_nth)
qed

lemma indexOfListener_absent:
  "\<forall>l\<in>set ls. \<not> is_nullish l \<and> \<not> strict_eq (listener_field l) v \<Longrightarrow> indexOfListener ls v = Inr (- 1)"
  unfolding indexOfListener_def by (rule index_loop_none) auto

lemma set_splice1: "set (splice1 i xs) \<subseteq> set xs"
  unfolding splice1_def using set_take_subset [of i xs] set_drop_subset [of "Suc i" xs] by auto

lemma removed_subset: "set (removed v ls) \<subseteq> set ls"
  unfolding removed_def using set_splice1 [of _ ls] by (auto split: sum.splits)

lemma removed_same:
  "\<forall>l\<in>set ls. \<not> is_nullish l \<and> \<not> strict_eq (listener_field l) v \<Longrightarrow> removed v ls = ls"
  by (simp add: removed_def indexOfListener_absent)

lemma removeListener_present:
  assumes "events s = Some t" "map_of t k = Some a" "\<forall>l\<in>set (heap s a). \<not> is_nullish l"
  shows "removeListener (Key k) v s = Inr (s\<lparr>heap := (heap s)(a := removed v (heap s a))\<rparr>)"
proof -
  obtain i where "indexOfListener (heap s a) v = Inr i"
    using indexOfListener_total [OF assms(3), of v] by blast
  then show ?thesis
    using assms(1,2)
    by (simp add: removeListener_def getListenersAsObject_Key_present for_in_single removed_def)
qed


lemma manipulate_loop_rev:
  "n \<le> length ls \<Longrightarrow>
   manipulate_loop remove e ls n s = apply_each (single remove e) (rev (take n ls)) s"
proof (induction n arbitrary: s)
  case 0 then show ?case by simp
next
  case (Suc n)
  then have "rev (take (Suc n) ls) = ls ! n # rev (take n ls)"
    by (simp add: take_Suc_conv_app_nth)
  with Suc show ?case by (simp split: sum.splits)
qed

text \<open>
  Claim C9. With an exact key or a pattern as selector, \<open>manipulateListeners\<close> applies
  the singular operation (\<open>removeListener\<close> when \<open>remove\<close> is true, \<open>addListener\<close>
  otherwise) to the entries of the array from the last to the first, stopping at the
  first fault.
\<close>

theorem manipulateListeners_reverse_order:
  "manipulateListeners remove (Event e) listeners s =
     apply_each (if remove then removeListener e else addListener e) (rev listeners) s"
  by (simp add: manipulateListeners_def manipulate_loop_rev single_def)

lemma isValidListener_acceptable: "isValidListener v = acceptable v"
proof (induction v rule: isValidListener.induct)
  case (3 i l b)
  then show ?case by (auto intro: acceptable.intros elim: acceptable.cases)
qed (auto intro: acceptable.intros elim: acceptable.cases)

lemma index_loop_exn: "index_loop ls v n = Inl x \<Longrightarrow> x = TypeError"
proof (induction n)
  case 0 then show ?case by simp
next
  case (Suc n)
  then show ?case by (cases "ls ! n") (auto split: if_splits)
qed

lemma remove_keys_exn: "remove_keys v m s = Inl (x, s') \<Longrightarrow> x = TypeError"
proof (induction v m s rule: remove_keys.induct)
  case (1 listener s) then show ?case by simp
next
  case (2 listener key a rest s)
  then show ?case
    by (auto simp: indexOfListener_def split: sum.splits if_splits dest: index_loop_exn)
qed

lemma removeListener_exn: "removeListener e v s = Inl (x, s') \<Longrightarrow> x = TypeError"
  by (auto simp: removeListener_def split: prod.splits dest: remove_keys_exn)

lemma prop_listener_exn: "prop_listener l = Inl x \<Longrightarrow> x = TypeError"
  by (cases l) auto

lemma prop_once_exn: "prop_once l = Inl x \<Longrightarrow> x = TypeError"
  by (cases l) auto

lemma call_exn:
  "\<forall>i a st st'. env i a st \<noteq> Inl (InvalidListener, st') \<Longrightarrow> call env f args s \<noteq> Inl (InvalidListener, s')"
  by (cases f) (auto simp: call_def)

lemma emit_one_exn:
  assumes "\<forall>i a st st'. env i a st \<noteq> Inl (InvalidListener, st')"
  shows "emit_one env e args l s \<noteq> Inl (InvalidListener, s')"
proof
  assume a: "emit_one env e args l s = Inl (InvalidListener, s')"
  then show False
    unfolding emit_one_def
    using call_exn [OF assms]
    by (auto split: sum.splits if_splits prod.splits
             dest: prop_listener_exn prop_once_exn removeListener_exn)
qed

lemma emit_listeners_exn:
  assumes "\<forall>i a st st'. env i a st \<noteq> Inl (InvalidListener, st')"
  shows "emit_listeners env e args ls s \<noteq> Inl (InvalidListener, s')"
proof (induction ls arbitrary: s)
  case Nil then show ?case by simp
next
  case (Cons l ls)
  then show ?case using emit_one_exn [OF assms]
    by (auto split: sum.splits prod.splits)
qed

lemma emit_keys_exn:
  assumes "\<forall>i a st st'. env i a st \<noteq> Inl (InvalidListener, st')"
  shows "emit_keys env e args m s \<noteq> Inl (InvalidListener, s')"
proof (induction m arbitrary: s)
  case Nil then show ?case by simp
next
  case (Cons p m)
  then show ?case using emit_listeners_exn [OF assms]
    by (cases p) (auto split: sum.splits prod.splits)
qed

lemma add_keys_exn: "add_keys v m s = Inl (x, s') \<Longrightarrow> x = TypeError"
proof (induction v m s rule: add_keys.induct)
  case (1 listener s) then show ?case by simp
next
  case (2 listener key a rest s)
  then show ?case
    by (auto simp: indexOfListener_def split: sum.splits if_splits dest: index_loop_exn)
qed

lemma manipulate_loop_remove_exn:
  "manipulate_loop True e ls n s = Inl (x, s') \<Longrightarrow> x = TypeError"
proof (induction n arbitrary: s)
  case 0 then show ?case by simp
next
  case (Suc n)
  then show ?case
    by (auto simp: single_def split: sum.splits dest: removeListener_exn)
qed

lemma manipulate_map_remove_exn:
  "manipulate_map True m s = Inl (x, s') \<Longrightarrow> x = TypeError"
proof (induction m arbitrary: s)
  case Nil then show ?case by simp
next
  case (Cons p m)
  obtain i v where p: "p = (i, v)" by (cases p)
  from Cons show ?case unfolding p
    by (cases v)
       (auto simp: single_def split: sum.splits
             dest: removeListener_exn manipulate_loop_remove_exn)
qed

lemma removeListeners_exn: "removeListeners ev ls s = Inl (x, s') \<Longrightarrow> x = TypeError"
  by (cases ev)
     (auto simp: removeListeners_def manipulateListeners_def
           dest: manipulate_loop_remove_exn manipulate_map_remove_exn)

text \<open>
  Claim C7. A value that is not acceptable makes \<open>addListener\<close> throw InvalidListener
  before anything is read or written: the world at the throw is the world of the call.
  \<open>addListener\<close> throws it for no other value, \<open>removeListener\<close> and
  \<open>removeListeners\<close> never throw it, and
  \<open>emitEvent\<close> lets it through only when a callback itself threw it. \<open>defineEvent\<close>,
  \<open>defineEvents\<close> and \<open>removeEvent\<close> cannot throw at all: they return a world.
\<close>

theorem invalid_listener_only_from_add:
  "(\<not> acceptable v \<longrightarrow> addListener e v s = Inl (InvalidListener, s))
   \<and> (\<forall>s'. addListener e v s = Inl (InvalidListener, s') \<longrightarrow> \<not> acceptable v)
   \<and> (\<forall>s'. removeListener e w s \<noteq> Inl (InvalidListener, s'))
   \<and> (\<forall>s'. removeListeners ev ws s \<noteq> Inl (InvalidListener, s'))
   \<and> ((\<forall>i a st st'. env i a st \<noteq> Inl (InvalidListener, st'))
        \<longrightarrow> (\<forall>s'. emitEvent env e args s \<noteq> Inl (InvalidListener, s')))"
proof (intro conjI allI impI)
  assume "\<not> acceptable v"
  then show "addListener e v s = Inl (InvalidListener, s)"
    by (simp add: addListener_def isValidListener_acceptable)
next
  fix s' assume "addListener e v s = Inl (InvalidListener, s')"
  then show "\<not> acceptable v"
    by (auto simp: addListener_def isValidListener_acceptable
             split: if_splits prod.splits dest: add_keys_exn)
next
  fix s' show "removeListener e w s \<noteq> Inl (InvalidListener, s')"
    using removeListener_exn by blast
next
  fix s' show "removeListeners ev ws s \<noteq> Inl (InvalidListener, s')"
    using removeListeners_exn by blast
next
  fix s' assume "\<forall>i a st st'. env i a st \<noteq> Inl (InvalidListener, st')"
  then show "emitEvent env e args s \<noteq> Inl (InvalidListener, s')"
    using emit_keys_exn by (simp add: emitEvent_def split: prod.splits)
qed

theorem invalid_listener_only_from_add_witness:
  "\<not> acceptable (Num 42)
   \<and> addListener (Key ''foo'') (Num 42) new_EventEmitter = Inl (InvalidListener, new_EventEmitter)
   \<and> (\<forall>i a st st'. silent i a st \<noteq> Inl (InvalidListener, st'))
   \<and> (\<forall>s'. emitEvent silent (Key ''foo'') None new_EventEmitter \<noteq> Inl (InvalidListener, s'))"
proof -
  have a: "\<not> acceptable (Num 42)" by (auto elim: acceptable.cases)
  have b: "\<forall>i a st st'. silent i a st \<noteq> Inl (InvalidListener, st')"
    by (simp add: silent_def)
  show ?thesis
    using a b invalid_listener_only_from_add
      [of "Num 42" "Key ''foo''" new_EventEmitter "Num 42" "Event (Key ''foo'')" "[]" silent None]
    by blast
qed

text \<open>
  Claim C6. On a new emitter, on which \<open>setOnceReturnValue\<close> was never called,
  \<open>_getOnceReturnValue\<close> finds the own property \<open>_onceReturnValue\<close> that the field
  declaration created and returns its value \<open>undefined\<close>, not \<open>true\<close>.
\<close>

theorem default_sentinel_is_undefined:
  "getOnceReturnValue new_EventEmitter = Undefined \<and> \<not> strict_eq (getOnceReturnValue new_EventEmitter) (Bool True)"
  by (simp add: getOnceReturnValue_def new_EventEmitter_def)

lemma set_for_in: "set (for_in obj) = set obj"
  by (auto simp: for_in_def)

lemma getEvents_table: "getEvents s = (table s, s\<lparr>events := Some (table s)\<rparr>)"
  by (simp add: getEvents_def table_def split: option.splits)

lemma listeners_of_table:
  "listeners_of s k = (case map_of (table s) k of None \<Rightarrow> [] | Some a \<Rightarrow> heap s a)"
  by (simp add: listeners_of_def table_def split: option.splits)

lemma fold_pattern:
  "resp = [] \<or> (\<exists>a0. resp = [(c, a0)]) \<Longrightarrow>
   fold (\<lambda>(key, a) resp. if P key then AList.update c a resp else resp) xs resp =
     (if filter (\<lambda>p. P (fst p)) xs = [] then resp
      else [(c, snd (last (filter (\<lambda>p. P (fst p)) xs)))])"
proof (induction xs arbitrary: resp)
  case Nil then show ?case by simp
next
  case (Cons p xs)
  obtain key a where p: "p = (key, a)" by (cases p)
  show ?case
  proof (cases "P key")
    case True
    have u: "AList.update c a resp = [(c, a)]" using Cons.prems by auto
    have "fold (\<lambda>(key, a) resp. if P key then AList.update c a resp else resp) xs [(c, a)] =
     (if filter (\<lambda>p. P (fst p)) xs = [] then [(c, a)]
      else [(c, snd (last (filter (\<lambda>p. P (fst p)) xs)))])"
      by (rule Cons.IH) simp
    then show ?thesis using True p u by simp
  next
    case False
    then show ?thesis using p Cons by simp
  qed
qed

lemma getListeners_Pattern:
  "getListeners (Pattern r) s =
     (RMap (if filter (\<lambda>p. test r (fst p)) (for_in (table s)) = [] then []
            else [(re_string r, snd (last (filter (\<lambda>p. test r (fst p)) (for_in (table s)))))]),
      s\<lparr>events := Some (table s)\<rparr>)"
  by (simp add: getListeners_def getEvents_table fold_pattern)

lemma listeners_of_materialise: "listeners_of (s\<lparr>events := Some (table s)\<rparr>) k = listeners_of s k"
  by (simp add: listeners_of_def table_def split: option.splits)

lemma materialise_idle: "events s \<noteq> None \<Longrightarrow> s\<lparr>events := Some (table s)\<rparr> = s"
  by (auto simp: table_def)

lemma defineEvent_Key:
  "defineEvent (Key k) s =
     (if map_of (table s) k = None \<and> k \<notin> set inherited_names
      then s\<lparr>events := Some (table s @ [(k, fresh s)]),
             heap := (heap s)(fresh s := []), fresh := Suc (fresh s)\<rparr>
      else s\<lparr>events := Some (table s)\<rparr>)"
  by (auto simp: defineEvent_def getListeners_def getEvents_table split: option.splits)

lemma removeListener_absent_key:
  assumes "map_of (table s) k = None" "k \<notin> set inherited_names"
  shows "removeListener (Key k) v s =
     Inr (s\<lparr>events := Some (table s @ [(k, fresh s)]),
            heap := (heap s)(fresh s := []), fresh := Suc (fresh s)\<rparr>)"
  using assms
  by (simp add: removeListener_def getListenersAsObject_def getListeners_def getEvents_table
        for_in_single indexOfListener_def)

lemma removeListener_inherited_name:
  assumes "map_of (table s) k = None" "k \<in> set inherited_names"
  shows "removeListener (Key k) v s = Inr (s\<lparr>events := Some (table s)\<rparr>)"
  using assms
  by (simp add: removeListener_def getListenersAsObject_def getListeners_def getEvents_table
        for_in_Nil)

lemma removeListener_missing:
  assumes "\<forall>l\<in>set (listeners_of s k). \<not> is_nullish l \<and> \<not> strict_eq (listener_field l) v"
  shows "removeListener (Key k) v s = Inr (defineEvent (Key k) s)"
proof (cases "map_of (table s) k")
  case None
  then show ?thesis
    by (cases "k \<in> set inherited_names")
       (simp_all add: removeListener_absent_key removeListener_inherited_name defineEvent_Key)
next
  case (Some a)
  then have ev: "events s = Some (table s)" by (auto simp: table_def split: option.splits)
  have h: "\<forall>l\<in>set (heap s a). \<not> is_nullish l \<and> \<not> strict_eq (listener_field l) v"
    using assms Some by (simp add: listeners_of_table)
  then have "removeListener (Key k) v s = Inr (s\<lparr>heap := (heap s)(a := removed v (heap s a))\<rparr>)"
    using removeListener_present [OF ev Some] by blast
  moreover have "removed v (heap s a) = heap s a" using h by (rule removed_same)
  moreover have "defineEvent (Key k) s = s" using Some ev by (simp add: defineEvent_Key)
  ultimately show ?thesis by simp
qed

lemma listeners_of_defineEvent_same_key:
  "listeners_of (defineEvent (Key k) s) k = listeners_of s k"
proof (cases "map_of (table s) k = None \<and> k \<notin> set inherited_names")
  case True
  let ?s' = "s\<lparr>events := Some (table s @ [(k, fresh s)]),
            heap := (heap s)(fresh s := []), fresh := Suc (fresh s)\<rparr>"
  have "map_of (table ?s') k = Some (fresh s)" using True by (simp add: table_def map_add_def)
  then have "listeners_of ?s' k = []" by (simp add: listeners_of_table)
  moreover have "listeners_of s k = []" using True by (simp add: listeners_of_table)
  ultimately show ?thesis using True by (simp add: defineEvent_Key)
next
  case False
  then show ?thesis by (auto simp: defineEvent_Key listeners_of_materialise)
qed

lemma listeners_of_defineEvent:
  assumes "\<forall>p\<in>set (table s). snd p \<noteq> fresh s"
  shows "listeners_of (defineEvent (Key k) s) k' = listeners_of s k'"
proof (cases "map_of (table s) k = None \<and> k \<notin> set inherited_names")
  case False
  then show ?thesis by (auto simp: defineEvent_Key listeners_of_materialise)
next
  case True
  let ?s' = "s\<lparr>events := Some (table s @ [(k, fresh s)]),
            heap := (heap s)(fresh s := []), fresh := Suc (fresh s)\<rparr>"
  have d: "defineEvent (Key k) s = ?s'" using True by (simp add: defineEvent_Key)
  have t: "table ?s' = table s @ [(k, fresh s)]" by (simp add: table_def)
  show ?thesis
  proof (cases "map_of (table s) k'")
    case (Some a)
    then have "(k', a) \<in> set (table s)" by (rule map_of_SomeD)
    then have "a \<noteq> fresh s" using assms by auto
    moreover have "map_of (table ?s') k' = Some a" using Some by (simp add: t map_add_def)
    ultimately show ?thesis using Some by (simp add: d listeners_of_table)
  next
    case None
    then have "listeners_of s k' = []" by (simp add: listeners_of_table)
    moreover have "listeners_of ?s' k' = []"
      using None by (cases "k' = k") (simp_all add: listeners_of_table t map_add_def)
    ultimately show ?thesis by (simp add: d)
  qed
qed

lemma defineEvent_twice: "defineEvent (Key k) (defineEvent (Key k) s) = defineEvent (Key k) s"
proof (cases "map_of (table s) k = None \<and> k \<notin> set inherited_names")
  case True
  let ?s' = "s\<lparr>events := Some (table s @ [(k, fresh s)]),
            heap := (heap s)(fresh s := []), fresh := Suc (fresh s)\<rparr>"
  have "map_of (table ?s') k = Some (fresh s)" using True by (simp add: table_def map_add_def)
  moreover have "table ?s' = table s @ [(k, fresh s)]" by (simp add: table_def)
  ultimately have "defineEvent (Key k) ?s' = ?s'" by (simp add: defineEvent_Key)
  then show ?thesis using True by (simp add: defineEvent_Key)
next
  case False
  let ?s' = "s\<lparr>events := Some (table s)\<rparr>"
  have "table ?s' = table s" by (simp add: table_def)
  then have "defineEvent (Key k) ?s' = ?s'" using False by (auto simp: defineEvent_Key)
  then show ?thesis using False by (auto simp: defineEvent_Key)
qed

lemma apply_each_remove_missing:
  "\<forall>v\<in>set vs. \<forall>l\<in>set (listeners_of s k). \<not> is_nullish l \<and> \<not> strict_eq (listener_field l) v \<Longrightarrow>
   apply_each (removeListener (Key k)) vs s = Inr (if vs = [] then s else defineEvent (Key k) s)"
proof (induction vs arbitrary: s)
  case Nil then show ?case by simp
next
  case (Cons v vs)
  let ?s1 = "defineEvent (Key k) s"
  have r: "removeListener (Key k) v s = Inr ?s1"
    using Cons.prems by (intro removeListener_missing) simp
  have "\<forall>v\<in>set vs. \<forall>l\<in>set (listeners_of ?s1 k). \<not> is_nullish l \<and> \<not> strict_eq (listener_field l) v"
    using Cons.prems by (simp add: listeners_of_defineEvent_same_key)
  from Cons.IH [OF this] r show ?case by (simp add: defineEvent_twice)
qed

lemma removeListener_Pattern_missing:
  assumes "\<forall>p\<in>set (table s). \<forall>l\<in>set (heap s (snd p)). \<not> is_nullish l \<and> \<not> strict_eq (listener_field l) v"
  shows "removeListener (Pattern r) v s = Inr (s\<lparr>events := Some (table s)\<rparr>)"
proof (cases "filter (\<lambda>p. test r (fst p)) (for_in (table s)) = []")
  case True
  then show ?thesis
    by (simp add: removeListener_def getListenersAsObject_def getListeners_Pattern for_in_Nil)
next
  case False
  let ?p = "last (filter (\<lambda>p. test r (fst p)) (for_in (table s)))"
  have "?p \<in> set (filter (\<lambda>p. test r (fst p)) (for_in (table s)))" using False by (rule last_in_set)
  then have "?p \<in> set (table s)" by (simp add: set_for_in)
  then have "indexOfListener (heap s (snd ?p)) v = Inr (- 1)"
    using assms by (intro indexOfListener_absent) blast
  then show ?thesis using False
    by (simp add: removeListener_def getListenersAsObject_def getListeners_Pattern for_in_single)
qed

lemma removeEvent_missing:
  assumes "map_of (table s) k = None"
  shows "removeEvent (Some (Key k)) s = s\<lparr>events := Some (table s)\<rparr>"
proof -
  have "\<forall>p\<in>set (table s). fst p \<noteq> k" using assms by (auto simp: map_of_eq_None_iff)
  then have "filter (\<lambda>p. fst p \<noteq> k) (table s) = table s" by simp
  then show ?thesis by (simp add: removeEvent_def getEvents_table)
qed


lemma array_index_foo [simp]: "array_index ''foo'' = None"
  by (simp add: array_index_def digit_val_def)

lemma array_index_bar [simp]: "array_index ''bar'' = None"
  by (simp add: array_index_def digit_val_def)

lemma for_in_foo_bar [simp]: "for_in [(''foo'', a), (''bar'', b)] = [(''foo'', a), (''bar'', b)]"
  by (simp add: for_in_def)

lemma indexOfListener_Nil [simp]: "indexOfListener [] v = Inr (- 1)"
  by (simp add: indexOfListener_def)

lemma two_events_reached:
  "\<exists>s1. addListener (Key ''foo'') (Fun 1) new_EventEmitter = Inr s1
       \<and> addListener (Key ''bar'') (Fun 2) s1 = Inr two_events"
proof -
  let ?s1 = "\<lparr>events = Some [(''foo'', 0)], onceReturnValue = Some Undefined,
      heap = (\<lambda>_. [])(0 := [Obj 1 (Fun 1) (Bool False)]), fresh = 2\<rparr>"
  have a: "addListener (Key ''foo'') (Fun 1) new_EventEmitter = Inr ?s1"
    by (simp add: addListener_def getListenersAsObject_def getListeners_def getEvents_def
          new_EventEmitter_def for_in_single)
  have b: "addListener (Key ''bar'') (Fun 2) ?s1 = Inr two_events"
    by (simp add: addListener_def getListenersAsObject_def getListeners_def getEvents_def
          for_in_single two_events_def)
  from a b show ?thesis by blast
qed

lemma table_two_events [simp]: "table two_events = [(''foo'', 0), (''bar'', 2)]"
  by (simp add: table_def two_events_def)

lemma listeners_of_two_events_foo [simp]: "listeners_of two_events ''foo'' = [Obj 1 (Fun 1) (Bool False)]"
  by (simp add: listeners_of_def two_events_def)

lemma heap_two_events [simp]:
  "heap two_events 0 = [Obj 1 (Fun 1) (Bool False)]" "heap two_events 2 = [Obj 3 (Fun 2) (Bool False)]"
  by (simp_all add: two_events_def)



lemma two_events_materialised:
  "two_events\<lparr>events := Some [(''foo'', 0), (''bar'', 2)]\<rparr> = two_events"
  by (simp add: two_events_def)

text \<open>
  Claim C2. With the events \<open>foo\<close> and \<open>bar\<close> in the table, \<open>getListeners\<close> called
  with a pattern that matches both returns an object with the single key
  \<open>/^(foo|bar)$/\<close>, the text of the pattern, bound to the list of \<open>bar\<close>; the keys
  \<open>foo\<close> and \<open>bar\<close> are not in it.
\<close>

theorem pattern_lookup_keeps_one_key:
  "fst (getListeners (Pattern re_foo_bar) two_events) = RMap [(''/^(foo|bar)$/'', 2)]"
  by (simp add: getListeners_Pattern re_foo_bar_def)

text \<open>
  Claim C1. With one listener on \<open>foo\<close> and one on \<open>bar\<close>, emitting with a pattern
  that matches both keys invokes the listener of \<open>bar\<close> only; the listener of
  \<open>foo\<close> is not invoked.
\<close>

theorem pattern_emit_fires_last_key_only:
  "emit returns_zero (Pattern re_foo_bar) [] two_events = Inr (two_events, [Fun 2])"
proof -
  have g: "getListenersAsObject (Pattern re_foo_bar) two_events = ([(''/^(foo|bar)$/'', 2)], two_events)"
    by (simp add: getListenersAsObject_def getListeners_Pattern re_foo_bar_def two_events_materialised)
  have o: "emit_one returns_zero (Pattern re_foo_bar) [] (Obj 3 (Fun 2) (Bool False)) two_events
             = Inr (two_events, Fun 2)"
    by (simp add: emit_one_def call_def returns_zero_def getOnceReturnValue_def two_events_def)
  show ?thesis
    by (simp add: emit_def emitEvent_def g for_in_single o)
qed

lemma table_fresh [simp]: "table (s\<lparr>fresh := n\<rparr>) = table s"
  by (simp add: table_def)

lemma addListener_inherited_name:
  assumes "map_of (table s) k = None" "k \<in> set inherited_names" "isValidListener R"
  shows "addListener (Key k) R s = Inr (s\<lparr>events := Some (table s)\<rparr>)"
  using assms
  by (simp add: addListener_def getListenersAsObject_def getListeners_def getEvents_table
        for_in_Nil)

lemma addListener_Key_wrapped:
  assumes v: "isValidListener R" and w: "typeof_object R"
    and o: "map_of (table s) k \<noteq> None \<or> k \<notin> set inherited_names"
    and h: "\<forall>l\<in>set (listeners_of s k). \<not> is_nullish l \<and> \<not> strict_eq (listener_field l) R"
  shows "\<exists>s1. addListener (Key k) R s = Inr s1 \<and> listeners_of s1 k = listeners_of s k @ [R]
           \<and> fresh s \<le> fresh s1"
proof (cases "map_of (table s) k")
  case None
  let ?s' = "s\<lparr>events := Some (table s @ [(k, fresh s)]),
            heap := (heap s)(fresh s := [R]), fresh := Suc (fresh s)\<rparr>"
  have "addListener (Key k) R s = Inr ?s'"
    using None v w o
    by (simp add: addListener_def getListenersAsObject_def getListeners_def getEvents_table
          for_in_single)
  moreover have "map_of (table ?s') k = Some (fresh s)" using None by (simp add: table_def map_add_def)
  then have "listeners_of ?s' k = [R]" by (simp add: listeners_of_table)
  moreover have "listeners_of s k = []" using None by (simp add: listeners_of_table)
  ultimately show ?thesis by simp
next
  case (Some a)
  then have ev: "events s = Some (table s)" by (auto simp: table_def split: option.splits)
  have "\<forall>l\<in>set (heap s a). \<not> is_nullish l \<and> \<not> strict_eq (listener_field l) R"
    using h Some by (simp add: listeners_of_table)
  then have i: "indexOfListener (heap s a) R = Inr (- 1)" by (rule indexOfListener_absent)
  let ?s' = "s\<lparr>heap := (heap s)(a := heap s a @ [R])\<rparr>"
  have "addListener (Key k) R s = Inr ?s'"
    using v w i Some ev
    by (simp add: addListener_def getListenersAsObject_Key_present for_in_single)
  moreover have "listeners_of ?s' k = listeners_of s k @ [R]"
    using Some ev by (simp add: listeners_of_def)
  ultimately show ?thesis by simp
qed

lemma listeners_of_fresh [simp]: "listeners_of (s\<lparr>fresh := n\<rparr>) k = listeners_of s k"
  by (simp add: listeners_of_def split: option.splits)

lemma ids_below_no_match:
  "ids_below n ls \<Longrightarrow> n \<le> m \<Longrightarrow> \<forall>l\<in>set ls. \<not> is_nullish l \<and> \<not> strict_eq (listener_field l) (Obj m f b)"
proof
  fix l assume a: "ids_below n ls" "n \<le> m" "l \<in> set ls"
  then have "\<not> is_nullish l" and "case object_id (listener_field l) of None \<Rightarrow> True | Some i \<Rightarrow> i < n"
    by (auto simp: ids_below_def list_all_iff)
  then show "\<not> is_nullish l \<and> \<not> strict_eq (listener_field l) (Obj m f b)"
    using a(2) by (cases "listener_field l") auto
qed

lemma addOnceListener_step:
  assumes "ids_below (fresh s) (listeners_of s k)"
    and o: "map_of (table s) k \<noteq> None \<or> k \<notin> set inherited_names"
  shows "\<exists>s1. addOnceListener (Key k) (Fun c) s = Inr s1
          \<and> listeners_of s1 k = listeners_of s k @ [Obj (fresh s) (Fun c) (Bool True)]
          \<and> fresh s < fresh s1"
proof -
  let ?R = "Obj (fresh s) (Fun c) (Bool True)"
  have "\<forall>l\<in>set (listeners_of (s\<lparr>fresh := Suc (fresh s)\<rparr>) k).
          \<not> is_nullish l \<and> \<not> strict_eq (listener_field l) ?R"
    using ids_below_no_match [OF assms(1) le_refl] by simp
  moreover have "map_of (table (s\<lparr>fresh := Suc (fresh s)\<rparr>)) k \<noteq> None \<or> k \<notin> set inherited_names"
    using o by simp
  ultimately obtain s1 where
    "addListener (Key k) ?R (s\<lparr>fresh := Suc (fresh s)\<rparr>) = Inr s1"
    "listeners_of s1 k = listeners_of (s\<lparr>fresh := Suc (fresh s)\<rparr>) k @ [?R]"
    "fresh (s\<lparr>fresh := Suc (fresh s)\<rparr>) \<le> fresh s1"
    using addListener_Key_wrapped [of ?R "s\<lparr>fresh := Suc (fresh s)\<rparr>" k] by auto
  then show ?thesis by (auto simp: addOnceListener_def)
qed

lemma addOnceListener_twice_ordinary_key:
  assumes "ids_below (fresh s) (listeners_of s k)"
    and o: "map_of (table s) k \<noteq> None \<or> k \<notin> set inherited_names"
  shows "\<exists>s1 s2 i j. addOnceListener (Key k) (Fun c) s = Inr s1
           \<and> addOnceListener (Key k) (Fun c) s1 = Inr s2
           \<and> i \<noteq> j
           \<and> listeners_of s2 k =
               listeners_of s k @ [Obj i (Fun c) (Bool True), Obj j (Fun c) (Bool True)]"
proof -
  from addOnceListener_step [OF assms, of c] obtain s1 where
    s1: "addOnceListener (Key k) (Fun c) s = Inr s1"
        "listeners_of s1 k = listeners_of s k @ [Obj (fresh s) (Fun c) (Bool True)]"
        "fresh s < fresh s1"
    by blast
  have i1: "ids_below (fresh s1) (listeners_of s1 k)"
    using assms(1) s1(2,3) by (auto simp: ids_below_def list_all_iff split: option.splits)
  have "listeners_of s1 k \<noteq> []" using s1(2) by simp
  then have o1: "map_of (table s1) k \<noteq> None \<or> k \<notin> set inherited_names"
    by (auto simp: listeners_of_table)
  from addOnceListener_step [OF i1 o1, of c] obtain s2 where
    s2: "addOnceListener (Key k) (Fun c) s1 = Inr s2"
        "listeners_of s2 k = listeners_of s1 k @ [Obj (fresh s1) (Fun c) (Bool True)]"
    by blast
  from s1 s2 show ?thesis by (intro exI [of _ s1] exI [of _ s2] exI [of _ "fresh s"] exI [of _ "fresh s1"]) simp
qed

text \<open>
  Claim C10. For the key \<open>toString\<close> on a new emitter, \<open>addOnceListener(key, f1)\<close>
  called twice stores no record at all: the read \<open>events["toString"]\<close> finds the
  inherited function, no key is created and the loop of \<open>addListener\<close> has nothing to
  run over. The list of the key is empty after both calls.
\<close>

theorem addOnceListener_twice_on_inherited_name:
  "addOnceListener (Key ''toString'') (Fun 1) new_EventEmitter =
     Inr (new_EventEmitter\<lparr>events := Some [], fresh := 1\<rparr>)
   \<and> addOnceListener (Key ''toString'') (Fun 1) (new_EventEmitter\<lparr>events := Some [], fresh := 1\<rparr>) =
     Inr (new_EventEmitter\<lparr>events := Some [], fresh := 2\<rparr>)
   \<and> listeners_of (new_EventEmitter\<lparr>events := Some [], fresh := 2\<rparr>) ''toString'' = []"
  by (simp add: addOnceListener_def addListener_def getListenersAsObject_def getListeners_def
        getEvents_def new_EventEmitter_def for_in_Nil listeners_of_def)

text \<open>
  Claim C5. Passing the same record \<open>{listener: f1, once: false}\<close> to \<open>addListener\<close>
  twice for the key \<open>foo\<close> leaves the record in the list twice: two entries share the
  callback \<open>f1\<close>.
\<close>

theorem wrapped_record_added_twice:
  "(case addListener (Key ''foo'') wrapped_once (new_EventEmitter\<lparr>fresh := 1\<rparr>) of
      Inl _ \<Rightarrow> []
    | Inr s1 \<Rightarrow> (case addListener (Key ''foo'') wrapped_once s1 of
                   Inl _ \<Rightarrow> []
                 | Inr s2 \<Rightarrow> listeners_of s2 ''foo''))
   = [wrapped_once, wrapped_once]"
  by (simp add: addListener_def getListenersAsObject_def getListeners_def getEvents_def
          new_EventEmitter_def for_in_single wrapped_once_def indexOfListener_def listeners_of_def)

lemma callable_record_not_nullish: "callable_record l \<Longrightarrow> \<not> is_nullish l"
  by (cases l) auto

lemma removeListener_key_at:
  assumes "key_at k a st" "list_all callable_record (heap st a)"
  shows "removeListener (Key k) v st = Inr (st\<lparr>heap := (heap st)(a := removed v (heap st a))\<rparr>)"
proof -
  from assms(1) obtain t where t: "events st = Some t" "map_of t k = Some a"
    by (auto simp: key_at_def)
  have "\<forall>l\<in>set (heap st a). \<not> is_nullish l"
    using assms(2) by (auto simp: list_all_iff callable_record_not_nullish)
  from removeListener_present [OF t this] show ?thesis .
qed

lemma key_at_heap [simp]: "key_at k a (st\<lparr>heap := h\<rparr>) = key_at k a st"
  by (simp add: key_at_def)

lemma list_all_removed: "list_all P ls \<Longrightarrow> list_all P (removed v ls)"
  using removed_subset [of v ls] by (auto simp: list_all_iff)

lemma emit_one_unfold:
  assumes "key_at k a st" "list_all callable_record (heap st a)"
  shows "emit_one env (Key k) args (Obj i (Fun c) b) st =
           after_call (Key k) (Fun c)
             (env c args (if b = Bool True
                          then st\<lparr>heap := (heap st)(a := removed (Fun c) (heap st a))\<rparr>
                          else st))"
proof (cases "b = Bool True")
  case True
  then show ?thesis
    using removeListener_key_at [OF assms, of "Fun c"]
    by (simp add: emit_one_def after_call_def call_def)
next
  case False
  then have "\<not> strict_eq b (Bool True)" by (cases b) auto
  then show ?thesis using False
    by (simp add: emit_one_def after_call_def call_def)
qed

lemma emitEvent_Key_present:
  assumes "key_at k a s"
  shows "emitEvent env (Key k) args s =
     (case emit_listeners env (Key k) (case args of Some x \<Rightarrow> x | None \<Rightarrow> []) (heap s a) s of
        Inl x \<Rightarrow> Inl x | Inr (s1, invoked) \<Rightarrow> Inr (s1, invoked))"
proof -
  from assms obtain t where "events s = Some t" "map_of t k = Some a" by (auto simp: key_at_def)
  then show ?thesis
    by (simp add: emitEvent_def getListenersAsObject_Key_present for_in_single
          split: sum.splits prod.splits)
qed

lemma listeners_of_key_at: "key_at k a s \<Longrightarrow> listeners_of s k = heap s a"
  by (auto simp: key_at_def listeners_of_def)

lemma once_only_reached:
  "addOnceListener (Key ''foo'') (Fun 7) (defineEvent (Key ''foo'') new_EventEmitter) = Inr once_only"
  by (simp add: defineEvent_def addOnceListener_def addListener_def getListenersAsObject_def
        getListeners_def getEvents_def new_EventEmitter_def for_in_single once_only_def)

lemma once_and_copy_reached:
  "addListener (Key ''foo'') (Obj 2 (Fun 7) (Bool False)) (once_only\<lparr>fresh := 3\<rparr>) = Inr once_and_copy"
  by (simp add: addListener_def getListenersAsObject_def getListeners_def
        getEvents_def for_in_single once_only_def once_and_copy_def indexOfListener_def)

lemma key_at_once_and_copy: "key_at ''foo'' 0 once_and_copy"
  by (simp add: key_at_def once_and_copy_def)

lemma removed_last_of_two:
  "removed (Fun 7) [Obj 1 (Fun 7) (Bool True), Obj 2 (Fun 7) (Bool False)] = [Obj 1 (Fun 7) (Bool True)]"
  by (simp add: removed_def indexOfListener_def splice1_def)

text \<open>
  Claim C3. After \<open>addOnceListener("foo", f7)\<close> and
  \<open>addListener("foo", {listener: f7, once: false})\<close> the list holds the fire-once
  record of \<open>f7\<close> followed by a plain record of \<open>f7\<close>. In a dispatch of \<open>foo\<close> the
  removal before the first call takes out the plain record (the last one that matches):
  the fire-once record is in the live list while its callback runs, \<open>f7\<close> is invoked
  twice, and after the dispatch the fire-once record is still registered.
\<close>

theorem fire_once_record_survives_dispatch:
  "emitEvent returns_zero (Key ''foo'') None once_and_copy = Inr (once_left_behind, [Fun 7, Fun 7])
   \<and> Obj 1 (Fun 7) (Bool True) \<in> set (listeners_of once_and_copy ''foo'')
   \<and> Obj 1 (Fun 7) (Bool True) \<in> set (listeners_of once_left_behind ''foo'')"
proof -
  have h: "heap once_and_copy 0 = [Obj 1 (Fun 7) (Bool True), Obj 2 (Fun 7) (Bool False)]"
    by (simp add: once_and_copy_def)
  have m: "once_and_copy\<lparr>heap := (heap once_and_copy)(0 := [Obj 1 (Fun 7) (Bool True)])\<rparr> = once_left_behind"
    by (simp add: once_and_copy_def once_left_behind_def)
  have k2: "key_at ''foo'' 0 once_left_behind" by (simp add: key_at_def once_left_behind_def)
  have c2: "list_all callable_record (heap once_left_behind 0)" by (simp add: once_left_behind_def)
  have g: "getOnceReturnValue once_left_behind = Undefined"
    by (simp add: getOnceReturnValue_def once_left_behind_def)
  have c1: "list_all callable_record (heap once_and_copy 0)" by (simp add: h)
  have "emit_one returns_zero (Key ''foo'') [] (Obj 1 (Fun 7) (Bool True)) once_and_copy
          = after_call (Key ''foo'') (Fun 7) (returns_zero 7 []
              (once_and_copy\<lparr>heap := (heap once_and_copy)(0 := removed (Fun 7) (heap once_and_copy 0))\<rparr>))"
    using emit_one_unfold [OF key_at_once_and_copy c1, of returns_zero "[]" 1 7 "Bool True"]
    by simp
  also have "\<dots> = after_call (Key ''foo'') (Fun 7) (returns_zero 7 [] once_left_behind)"
    unfolding h removed_last_of_two m ..
  also have "\<dots> = Inr (once_left_behind, Fun 7)"
    by (simp add: after_call_def returns_zero_def g)
  finally have e1: "emit_one returns_zero (Key ''foo'') [] (Obj 1 (Fun 7) (Bool True)) once_and_copy
              = Inr (once_left_behind, Fun 7)" .
  have e2: "emit_one returns_zero (Key ''foo'') [] (Obj 2 (Fun 7) (Bool False)) once_left_behind
              = Inr (once_left_behind, Fun 7)"
    using emit_one_unfold [OF k2 c2, of returns_zero "[]" 2 7 "Bool False"]
    by (simp add: after_call_def returns_zero_def g)
  have "emitEvent returns_zero (Key ''foo'') None once_and_copy = Inr (once_left_behind, [Fun 7, Fun 7])"
    by (simp add: emitEvent_Key_present [OF key_at_once_and_copy] h e1 [unfolded One_nat_def] e2)
  moreover have "listeners_of once_and_copy ''foo'' = [Obj 1 (Fun 7) (Bool True), Obj 2 (Fun 7) (Bool False)]"
    by (simp add: listeners_of_def once_and_copy_def)
  moreover have "listeners_of once_left_behind ''foo'' = [Obj 1 (Fun 7) (Bool True)]"
    by (simp add: listeners_of_def once_left_behind_def)
  ultimately show ?thesis by simp
qed

lemma listeners_of_nonempty_key_at:
  assumes "l \<in> set (listeners_of s k)"
  shows "\<exists>a. key_at k a s"
proof (cases "events s")
  case None
  then show ?thesis using assms by (simp add: listeners_of_def)
next
  case (Some t)
  then show ?thesis using assms by (cases "map_of t k") (auto simp: listeners_of_def key_at_def)
qed

lemma bind_Inr_cases:
  "(case m of Inl x \<Rightarrow> Inl x | Inr y \<Rightarrow> g y) = Inr z \<Longrightarrow> \<exists>y. m = Inr y \<and> g y = Inr z"
  by (cases m) auto

lemma after_call_Inr: "after_call e f res = Inr (s, g) \<Longrightarrow> g = f"
  unfolding after_call_def by (auto split: sum.splits prod.splits if_splits)

lemma emit_one_shape:
  "prop_once l = Inr once \<Longrightarrow> prop_listener l = Inr f \<Longrightarrow>
   emit_one env e args l s =
     (case (if strict_eq once (Bool True) then removeListener e f s else Inr s) of
        Inl x \<Rightarrow> Inl x
      | Inr s1 \<Rightarrow> after_call e f (call env f args s1))"
  unfolding emit_one_def after_call_def by simp

lemma emit_one_listener:
  assumes "emit_one env e args l s = Inr (s1, f)"
  shows "f = listener_field l \<and> \<not> is_nullish l"
proof -
  from assms obtain once where o: "prop_once l = Inr once"
    unfolding emit_one_def by (cases "prop_once l") auto
  from assms o obtain f' where f': "prop_listener l = Inr f'"
    unfolding emit_one_def by (cases "prop_listener l") auto
  from assms have
    "(case (if strict_eq once (Bool True) then removeListener e f' s else Inr s) of
        Inl x \<Rightarrow> Inl x
      | Inr s1 \<Rightarrow> after_call e f' (call env f' args s1)) = Inr (s1, f)"
    unfolding emit_one_shape [OF o f'] .
  from bind_Inr_cases [OF this] obtain sa where
    "after_call e f' (call env f' args sa) = Inr (s1, f)" by blast
  then have "f = f'" by (rule after_call_Inr)
  then show ?thesis using f' by (cases l) auto
qed

lemma emit_listeners_invoked:
  "emit_listeners env e args rest s = Inr (s', invoked) \<Longrightarrow> invoked = map listener_field rest"
proof (induction rest arbitrary: s invoked)
  case Nil then show ?case by simp
next
  case (Cons l rest)
  from Cons.prems have
    "(case emit_one env e args l s of
        Inl x \<Rightarrow> Inl x
      | Inr (s3, f) \<Rightarrow>
          (case emit_listeners env e args rest s3 of
             Inl x \<Rightarrow> Inl x
           | Inr (s4, invoked) \<Rightarrow> Inr (s4, f # invoked))) = Inr (s', invoked)"
    by simp
  from bind_Inr_cases [OF this] obtain s1 f where
    a: "emit_one env e args l s = Inr (s1, f)"
    and "(case emit_listeners env e args rest s1 of
             Inl x \<Rightarrow> Inl x
           | Inr (s4, invoked) \<Rightarrow> Inr (s4, f # invoked)) = Inr (s', invoked)"
    by auto
  from bind_Inr_cases [OF this(2)] obtain iv where
    b: "emit_listeners env e args rest s1 = Inr (s', iv)" "invoked = f # iv"
    by auto
  from emit_one_listener [OF a] Cons.IH [OF b(1)] b(2) show ?case by simp
qed

lemma emitEvent_Key_invoked:
  assumes "emitEvent env (Key k) args s = Inr (s', invoked)"
  shows "invoked = map listener_field (listeners_of s k)"
proof (cases "map_of (table s) k")
  case None
  then have l: "listeners_of s k = []" by (simp add: listeners_of_table)
  show ?thesis
  proof (cases "k \<in> set inherited_names")
    case True
    then have "getListenersAsObject (Key k) s = ([], s\<lparr>events := Some (table s)\<rparr>)"
      using None by (simp add: getListenersAsObject_def getListeners_def getEvents_table)
    then show ?thesis using assms l by (auto simp: emitEvent_def for_in_Nil)
  next
    case False
    then have "getListenersAsObject (Key k) s =
      ([(k, fresh s)], s\<lparr>events := Some (table s @ [(k, fresh s)]),
            heap := (heap s)(fresh s := []), fresh := Suc (fresh s)\<rparr>)"
      using None by (simp add: getListenersAsObject_def getListeners_def getEvents_table)
    then show ?thesis using assms l by (auto simp: emitEvent_def for_in_single)
  qed
next
  case (Some a)
  then have k: "key_at k a s" by (auto simp: key_at_def table_def split: option.splits)
  from assms obtain iv where
    "emit_listeners env (Key k) (case args of Some x \<Rightarrow> x | None \<Rightarrow> []) (heap s a) s = Inr (s', iv)"
    "invoked = iv"
    by (auto simp: emitEvent_Key_present [OF k] split: sum.splits prod.splits)
  then show ?thesis using emit_listeners_invoked listeners_of_key_at [OF k] by simp
qed

lemma removed_keeps:
  assumes nn: "\<forall>l\<in>set ls. \<not> is_nullish l" and l: "l \<in> set ls"
    and ne: "\<not> strict_eq (listener_field l) v"
  shows "l \<in> set (removed v ls)"
proof -
  from indexOfListener_total [OF nn, of v] obtain i where
    i: "indexOfListener ls v = Inr i"
       "i = - 1 \<or> (0 \<le> i \<and> nat i < length ls \<and> strict_eq (listener_field (ls ! nat i)) v)"
    by blast
  show ?thesis
  proof (cases "i = - 1")
    case True then show ?thesis using i l by (simp add: removed_def)
  next
    case False
    then have b: "nat i < length ls" "strict_eq (listener_field (ls ! nat i)) v" using i by auto
    then have "l \<noteq> ls ! nat i" using ne by auto
    moreover have "set (take (nat i) ls @ ls ! nat i # drop (Suc (nat i)) ls) = set ls"
      by (simp only: id_take_nth_drop [OF b(1), symmetric])
    then have "set (take (nat i) ls) \<union> insert (ls ! nat i) (set (drop (Suc (nat i)) ls)) = set ls"
      by (simp only: set_append list.simps(15))
    ultimately have "l \<in> set (splice1 (nat i) ls)" using l by (auto simp: splice1_def)
    then show ?thesis using i False by (simp add: removed_def)
  qed
qed

lemma registered_removed:
  assumes "list_all callable_record ls" "registered g ls" "c \<noteq> g"
  shows "registered g (removed (Fun c) ls)"
proof -
  from assms(2) obtain l where l: "l \<in> set ls" "listener_field l = Fun g"
    by (auto simp: registered_def)
  have nn: "\<forall>l\<in>set ls. \<not> is_nullish l"
    using assms(1) by (auto simp: list_all_iff callable_record_not_nullish)
  have "l \<in> set (removed (Fun c) ls)"
    by (rule removed_keeps [OF nn l(1)]) (use l(2) assms(3) in simp)
  then show ?thesis using l(2) unfolding registered_def by force
qed

lemma live_removeListener:
  assumes "live k a st"
  shows "\<exists>st'. removeListener (Key k) (Fun c) st = Inr st' \<and> live k a st'
           \<and> (c \<noteq> g \<longrightarrow> registered g (heap st a) \<longrightarrow> registered g (heap st' a))"
proof -
  let ?st' = "st\<lparr>heap := (heap st)(a := removed (Fun c) (heap st a))\<rparr>"
  have "removeListener (Key k) (Fun c) st = Inr ?st'"
    using assms removeListener_key_at unfolding live_def by blast
  moreover have "live k a ?st'" using assms by (simp add: live_def list_all_removed)
  moreover have "c \<noteq> g \<longrightarrow> registered g (heap st a) \<longrightarrow> registered g (heap ?st' a)"
    using assms registered_removed by (simp add: live_def)
  ultimately show ?thesis by blast
qed

lemma live_addListener:
  assumes "live k a st"
  shows "\<exists>st'. addListener (Key k) (Fun g) st = Inr st' \<and> live k a st' \<and> registered g (heap st' a)"
proof -
  from assms obtain t where t: "events st = Some t" "map_of t k = Some a"
    and ca: "list_all callable_record (heap st a)"
    by (auto simp: live_def key_at_def)
  have nn: "\<forall>l\<in>set (heap st a). \<not> is_nullish l"
    using ca by (auto simp: list_all_iff callable_record_not_nullish)
  from indexOfListener_total [OF nn, of "Fun g"] obtain i where
    i: "indexOfListener (heap st a) (Fun g) = Inr i"
       "i = - 1 \<or> (0 \<le> i \<and> nat i < length (heap st a)
                     \<and> strict_eq (listener_field (heap st a ! nat i)) (Fun g))"
    by blast
  show ?thesis
  proof (cases "i = - 1")
    case True
    let ?st' = "st\<lparr>heap := (heap st)(a := heap st a @ [Obj (fresh st) (Fun g) (Bool False)]),
                   fresh := Suc (fresh st)\<rparr>"
    have "addListener (Key k) (Fun g) st = Inr ?st'"
      using t i(1) True by (simp add: addListener_def getListenersAsObject_Key_present for_in_single)
    moreover have "live k a ?st'" using t ca by (simp add: live_def key_at_def)
    moreover have "registered g (heap ?st' a)" by (simp add: registered_def)
    ultimately show ?thesis by blast
  next
    case False
    then have b: "nat i < length (heap st a)"
      "strict_eq (listener_field (heap st a ! nat i)) (Fun g)" using i by auto
    have "callable_record (heap st a ! nat i)" using ca b(1) by (simp add: list_all_length)
    then have "listener_field (heap st a ! nat i) = Fun g" using b(2)
      by (cases "heap st a ! nat i" rule: callable_record.cases) auto
    then have "registered g (heap st a)" using b(1) unfolding registered_def
      by (metis image_eqI nth_mem)
    moreover have "addListener (Key k) (Fun g) st = Inr st"
      using t i(1) False by (simp add: addListener_def getListenersAsObject_Key_present for_in_single)
    ultimately show ?thesis using assms by auto
  qed
qed

lemma emit_one_live:
  assumes A: "adds_listener k g (env f)" and Q: "quiet_except f env" and gf: "g \<noteq> f"
    and L: "live k a st" and l: "callable_record l"
  shows "\<exists>st'. emit_one env (Key k) args l st = Inr (st', listener_field l) \<and> live k a st'
           \<and> (listener_field l \<noteq> Fun g \<longrightarrow> registered g (heap st a) \<longrightarrow> registered g (heap st' a))
           \<and> (listener_field l = Fun f \<longrightarrow> registered g (heap st' a))"
proof -
  from l obtain i c b where lo: "l = Obj i (Fun c) b" by (cases l rule: callable_record.cases) auto
  have sh: "emit_one env (Key k) args l st =
     (case (if strict_eq b (Bool True) then removeListener (Key k) (Fun c) st else Inr st) of
        Inl x \<Rightarrow> Inl x
      | Inr s1 \<Rightarrow> after_call (Key k) (Fun c) (call env (Fun c) args s1))"
    using lo by (intro emit_one_shape) simp_all
  obtain s1 where s1:
    "(if strict_eq b (Bool True) then removeListener (Key k) (Fun c) st else Inr st) = Inr s1"
    "live k a s1" "c \<noteq> g \<longrightarrow> registered g (heap st a) \<longrightarrow> registered g (heap s1 a)"
    using live_removeListener [OF L, of c g] L by (cases "strict_eq b (Bool True)") auto
  obtain r s2 where s2:
    "call env (Fun c) args s1 = Inr (r, s2)" "live k a s2"
    "registered g (heap s1 a) \<longrightarrow> registered g (heap s2 a)"
    "c = f \<longrightarrow> registered g (heap s2 a)"
  proof (cases "c = f")
    case True
    from live_addListener [OF s1(2), of g] obtain s2 where
      a: "addListener (Key k) (Fun g) s1 = Inr s2" "live k a s2" "registered g (heap s2 a)"
      by blast
    from A obtain r where
      "env f args s1 = (case addListener (Key k) (Fun g) s1 of Inl x \<Rightarrow> Inl x | Inr st' \<Rightarrow> Inr (r, st'))"
      unfolding adds_listener_def by blast
    then have "call env (Fun c) args s1 = Inr (r, s2)" using a(1) True by (simp add: call_def)
    with a that show ?thesis by blast
  next
    case False
    with Q obtain r where "env c args s1 = Inr (r, s1)" unfolding quiet_except_def by blast
    then have "call env (Fun c) args s1 = Inr (r, s1)" by (simp add: call_def)
    with s1(2) False that show ?thesis by blast
  qed
  obtain s3 where s3:
    "(if strict_eq r (getOnceReturnValue s2) then removeListener (Key k) (Fun c) s2 else Inr s2) = Inr s3"
    "live k a s3" "c \<noteq> g \<longrightarrow> registered g (heap s2 a) \<longrightarrow> registered g (heap s3 a)"
    using live_removeListener [OF s2(2), of c g] s2(2)
    by (cases "strict_eq r (getOnceReturnValue s2)") auto
  have "emit_one env (Key k) args l st = Inr (s3, Fun c)"
    using sh s1(1) s2(1) s3(1) by (simp add: after_call_def)
  then show ?thesis using lo s1(3) s2(3,4) s3(2,3) gf by auto
qed

lemma emit_listeners_live:
  assumes A: "adds_listener k g (env f)" and Q: "quiet_except f env" and gf: "g \<noteq> f"
  shows "live k a st \<Longrightarrow> list_all callable_record rest \<Longrightarrow>
     \<exists>st'. emit_listeners env (Key k) args rest st = Inr (st', map listener_field rest)
        \<and> live k a st'
        \<and> (\<not> registered g rest \<longrightarrow> registered g (heap st a) \<or> registered f rest
              \<longrightarrow> registered g (heap st' a))"
proof (induction rest arbitrary: st)
  case Nil
  then show ?case by (simp add: registered_def)
next
  case (Cons l rest)
  then have cl: "callable_record l" and cr: "list_all callable_record rest" by simp_all
  from emit_one_live [OF A Q gf Cons.prems(1) cl, of args] obtain s1 where
    s1: "emit_one env (Key k) args l st = Inr (s1, listener_field l)" "live k a s1"
        "listener_field l \<noteq> Fun g \<longrightarrow> registered g (heap st a) \<longrightarrow> registered g (heap s1 a)"
        "listener_field l = Fun f \<longrightarrow> registered g (heap s1 a)"
    by blast
  from Cons.IH [OF s1(2) cr] obtain s2 where
    s2: "emit_listeners env (Key k) args rest s1 = Inr (s2, map listener_field rest)"
        "live k a s2"
        "\<not> registered g rest \<longrightarrow> registered g (heap s1 a) \<or> registered f rest
              \<longrightarrow> registered g (heap s2 a)"
    by blast
  have "emit_listeners env (Key k) args (l # rest) st = Inr (s2, map listener_field (l # rest))"
    using s1(1) s2(1) by simp
  moreover have "\<not> registered g (l # rest) \<longrightarrow> registered g (heap st a) \<or> registered f (l # rest)
              \<longrightarrow> registered g (heap s2 a)"
    using s1(3,4) s2(3) by (auto simp: registered_def)
  ultimately show ?case using s2(2) by blast
qed

text \<open>
  Claim C4. A dispatch on an exact key invokes the listeners of the list as it was when
  the dispatch began, whatever the callbacks do. So when a listener \<open>f\<close> of the key
  calls \<open>addListener\<close> for the same key with a function \<open>g\<close> that was not
  registered, \<open>g\<close> is not invoked in that pass, and it is invoked in the next dispatch
  of the key.
\<close>

theorem added_listener_waits_for_next_dispatch:
  assumes ca: "list_all callable_record (listeners_of s k)"
    and fin: "registered f (listeners_of s k)"
    and gout: "\<not> registered g (listeners_of s k)"
    and A: "adds_listener k g (env f)" and Q: "quiet_except f env"
  shows "(\<forall>env0 a0 s' invoked. emitEvent env0 (Key k) a0 s = Inr (s', invoked)
            \<longrightarrow> invoked = map listener_field (listeners_of s k))
       \<and> (\<exists>s1 invoked1 s2 invoked2.
             emitEvent env (Key k) args s = Inr (s1, invoked1) \<and> Fun g \<notin> set invoked1
           \<and> emitEvent env (Key k) args' s1 = Inr (s2, invoked2) \<and> Fun g \<in> set invoked2)"
proof
  show "\<forall>env0 a0 s' invoked. emitEvent env0 (Key k) a0 s = Inr (s', invoked)
            \<longrightarrow> invoked = map listener_field (listeners_of s k)"
    using emitEvent_Key_invoked by blast
  have gf: "g \<noteq> f" using fin gout by auto
  from fin obtain l where "l \<in> set (listeners_of s k)" by (auto simp: registered_def)
  from listeners_of_nonempty_key_at [OF this] obtain a where k: "key_at k a s" by blast
  then have la: "listeners_of s k = heap s a" by (rule listeners_of_key_at)
  have L: "live k a s" using k ca la by (simp add: live_def)
  let ?a1 = "case args of Some x \<Rightarrow> x | None \<Rightarrow> []"
  let ?a2 = "case args' of Some x \<Rightarrow> x | None \<Rightarrow> []"
  from emit_listeners_live [OF A Q gf L, of "heap s a" ?a1] ca la fin gout obtain s1 where
    s1: "emit_listeners env (Key k) ?a1 (heap s a) s = Inr (s1, map listener_field (heap s a))"
        "live k a s1" "registered g (heap s1 a)"
    by auto
  have e1: "emitEvent env (Key k) args s = Inr (s1, map listener_field (heap s a))"
    using s1(1) by (simp add: emitEvent_Key_present [OF k])
  have n1: "Fun g \<notin> set (map listener_field (heap s a))"
    using gout la by (simp add: registered_def)
  have k1: "key_at k a s1" and c1: "list_all callable_record (heap s1 a)"
    using s1(2) by (simp_all add: live_def)
  from emit_listeners_live [OF A Q gf s1(2) c1, of ?a2] obtain s2 where
    s2: "emit_listeners env (Key k) ?a2 (heap s1 a) s1 = Inr (s2, map listener_field (heap s1 a))"
    by blast
  have e2: "emitEvent env (Key k) args' s1 = Inr (s2, map listener_field (heap s1 a))"
    using s2 by (simp add: emitEvent_Key_present [OF k1])
  have n2: "Fun g \<in> set (map listener_field (heap s1 a))"
    using s1(3) by (simp add: registered_def)
  from e1 n1 e2 n2 show "\<exists>s1 invoked1 s2 invoked2.
             emitEvent env (Key k) args s = Inr (s1, invoked1) \<and> Fun g \<notin> set invoked1
           \<and> emitEvent env (Key k) args' s1 = Inr (s2, invoked2) \<and> Fun g \<in> set invoked2"
    by blast
qed

theorem added_listener_waits_for_next_dispatch_witness:
  "list_all callable_record (listeners_of two_events ''foo'')
   \<and> registered 1 (listeners_of two_events ''foo'')
   \<and> \<not> registered 5 (listeners_of two_events ''foo'')
   \<and> adds_listener ''foo'' 5 (adder 1)
   \<and> quiet_except 1 adder
   \<and> (\<exists>s1 invoked1 s2 invoked2.
         emitEvent adder (Key ''foo'') None two_events = Inr (s1, invoked1) \<and> Fun 5 \<notin> set invoked1
       \<and> emitEvent adder (Key ''foo'') None s1 = Inr (s2, invoked2) \<and> Fun 5 \<in> set invoked2)"
proof -
  have ca: "list_all callable_record (listeners_of two_events ''foo'')" by simp
  have fin: "registered 1 (listeners_of two_events ''foo'')" by (simp add: registered_def)
  have gout: "\<not> registered 5 (listeners_of two_events ''foo'')" by (simp add: registered_def)
  have A: "adds_listener ''foo'' 5 (adder 1)"
    unfolding adds_listener_def adder_def by (intro allI exI [of _ "Num 0"]) simp
  have Q: "quiet_except 1 adder" by (simp add: quiet_except_def adder_def)
  from added_listener_waits_for_next_dispatch [OF ca fin gout A Q, of None None] ca fin gout A Q
  show ?thesis by blast
qed

end
